theory Spec2Isabelle
  imports Main "HOL-Library.Word" "HOL-Library.Multiset"
begin

unbundle bit_operations_syntax

section \<open>The partition table of components/spi\_flash/partition.c\<close>

text \<open>
  A shallow embedding of \<^verbatim>\<open>partition.c\<close>: the loader \<^verbatim>\<open>load_partitions\<close>, the
  query functions \<^verbatim>\<open>esp_partition_find\<close>, \<^verbatim>\<open>esp_partition_next\<close>,
  \<^verbatim>\<open>esp_partition_find_first\<close>, and the iterator's allocation and release.
  Calls are sequential (the lock of the source protects the load and has no effect on a
  single thread of calls), global and heap state is passed explicitly, and what C leaves
  undefined (a failed assertion, the use or release of an iterator that is not allocated)
  is a value of type \<open>fault\<close>.
\<close>

subsection \<open>Data\<close>

type_synonym esp_err_t = int

definition ESP_OK :: esp_err_t where
  "ESP_OK = 0"

text \<open>\<^verbatim>\<open>esp_partition_type_t\<close> is a C enum; its values are 32-bit.\<close>

type_synonym esp_partition_type_t = "32 word"

text \<open>
  A C string is the bytes a \<^verbatim>\<open>char*\<close> points to; it is read up to the first NUL.
  The end of the list reads as NUL.
\<close>

type_synonym c_chars = "8 word list"

text \<open>
  The on-flash descriptor \<^verbatim>\<open>esp_partition_info_t\<close> (esp\_flash\_data\_types.h), with
  \<^verbatim>\<open>pos.offset\<close> and \<^verbatim>\<open>pos.size\<close> flattened. \<open>pi_label\<close> is the field
  \<^verbatim>\<open>uint8_t label[16]\<close>.
\<close>

record esp_partition_info_t =
  pi_magic :: "16 word"
  pi_type :: "8 word"
  pi_subtype :: "8 word"
  pi_offset :: "32 word"
  pi_size :: "32 word"
  pi_label :: c_chars
  pi_flags :: "32 word"

text \<open>
  The record \<^verbatim>\<open>esp_partition_t\<close> (esp\_partition.h). \<open>p_label\<close> is the whole
  character buffer of the record as the loader leaves it.
\<close>

record esp_partition_t =
  p_type :: esp_partition_type_t
  p_address :: "32 word"
  p_size :: "32 word"
  p_label :: c_chars
  p_encrypted :: bool

text \<open>
  \<^verbatim>\<open>esp_partition_iterator_opaque_t\<close>. A pointer to an item of the singly linked list
  is the chain of records that starts at that item: \<open>[]\<close> is \<^verbatim>\<open>NULL\<close> and
  \<^verbatim>\<open>SLIST_NEXT\<close> is \<open>tl\<close>. The items are never changed once they are linked
  (the loader only inserts at the head, see \<open>load_loop\<close>), so the chain an iterator
  holds is the chain in memory.
\<close>

record esp_partition_iterator_opaque_t =
  it_type :: esp_partition_type_t
  it_label :: "c_chars option"
  next_item :: "esp_partition_t list"
  info :: "esp_partition_t option"

text \<open>\<^verbatim>\<open>esp_partition_iterator_t\<close>: the address of an iterator, \<open>None\<close> for \<^verbatim>\<open>NULL\<close>.\<close>

type_synonym esp_partition_iterator_t = "nat option"

text \<open>
  What the source takes from headers that are not part of this file, and from the flash
  collaborator: the magic constant, the sector size, the result of
  \<^verbatim>\<open>spi_flash_mmap\<close> and, when it succeeded, the descriptor slots of the mapped
  region counted from the table's base address.
\<close>

record platform =
  ESP_PARTITION_MAGIC :: "16 word"
  SPI_FLASH_SEC_SIZE :: nat
  spi_flash_mmap :: esp_err_t
  slots :: "nat \<Rightarrow> esp_partition_info_t"

text \<open>
  Modelled from the spec: \<^verbatim>\<open>sizeof(esp_partition_info_t)\<close>, whose declaration is in
  esp\_flash\_data\_types.h. The layout table of the spec has the fields at offsets
  0, 2, 3, 4, 8, 12 and 28, the last one 4 bytes long.
\<close>

definition sizeof_esp_partition_info_t :: nat where
  "sizeof_esp_partition_info_t = 32"

text \<open>
  The state: the global list \<^verbatim>\<open>s_partition_list\<close> (head first), the allocated
  iterators by address, the next address \<^verbatim>\<open>malloc\<close> hands out, and a counter of
  the executions of \<^verbatim>\<open>load_partitions\<close> (a ghost field, the source has none).
\<close>

record pstate =
  s_partition_list :: "esp_partition_t list"
  iterators :: "nat \<Rightarrow> esp_partition_iterator_opaque_t option"
  brk :: nat
  load_calls :: nat

datatype fault = AssertFail | InvalidPointer | InvalidFree

subsection \<open>Type keys\<close>

definition get_major_type :: "esp_partition_type_t \<Rightarrow> 32 word" where
  "get_major_type type = (drop_bit 8 type) AND 0xff"

definition get_minor_type :: "esp_partition_type_t \<Rightarrow> 32 word" where
  "get_minor_type type = type AND 0xff"

text \<open>The expression \<^verbatim>\<open>(it->type << 8) | it->subtype\<close> of the loader.\<close>

definition pack_type :: "8 word \<Rightarrow> 8 word \<Rightarrow> esp_partition_type_t" where
  "pack_type t s = push_bit 8 (ucast t) OR ucast s"

subsection \<open>C strings\<close>

definition c_str :: "c_chars \<Rightarrow> c_chars" where
  "c_str buf = takeWhile (\<lambda>c. c \<noteq> 0) buf"

text \<open>
  \<^verbatim>\<open>strncpy(dst, src, n)\<close>: the \<open>n\<close> bytes written to \<open>dst\<close>, the characters of
  \<open>src\<close> before its first NUL among the first \<open>n\<close>, then NULs.
\<close>

definition strncpy :: "c_chars \<Rightarrow> nat \<Rightarrow> c_chars" where
  "strncpy src n = (let s = c_str (take n src) in s @ replicate (n - length s) 0)"

fun strcmp :: "c_chars \<Rightarrow> c_chars \<Rightarrow> int" where
  "strcmp [] [] = 0"
| "strcmp [] (y # ys) = - uint y"
| "strcmp (x # xs) [] = uint x"
| "strcmp (x # xs) (y # ys) =
     (if x \<noteq> y then uint x - uint y else if x = 0 then 0 else strcmp xs ys)"

subsection \<open>The loader\<close>

definition SLIST_EMPTY :: "esp_partition_t list \<Rightarrow> bool" where
  "SLIST_EMPTY head = (head = [])"

definition SLIST_INSERT_HEAD :: "esp_partition_t list \<Rightarrow> esp_partition_t \<Rightarrow> esp_partition_t list" where
  "SLIST_INSERT_HEAD head item = item # head"

text \<open>\<^verbatim>\<open>SLIST_INSERT_AFTER\<close>, the element it inserts after given by its position in the list.\<close>

definition SLIST_INSERT_AFTER :: "esp_partition_t list \<Rightarrow> nat \<Rightarrow> esp_partition_t \<Rightarrow> esp_partition_t list" where
  "SLIST_INSERT_AFTER head elm item = take (Suc elm) head @ item # drop (Suc elm) head"

text \<open>
  The body of the loader's loop for one valid slot: the new item. The label buffer gets
  the 16 bytes of \<^verbatim>\<open>strncpy\<close> and the NUL stored at index 16
  (\<^verbatim>\<open>sizeof(it->label)\<close>).
\<close>

definition load_item :: "esp_partition_info_t \<Rightarrow> esp_partition_t" where
  "load_item d =
     \<lparr>p_type = pack_type (pi_type d) (pi_subtype d),
      p_address = pi_offset d,
      p_size = pi_size d,
      p_label = strncpy (pi_label d) 16 @ [0],
      p_encrypted = False\<rparr>"

text \<open>
  The loop \<^verbatim>\<open>for (; it != end; ++it)\<close>: \<open>it\<close> is the index of the slot, the third
  argument is \<^verbatim>\<open>end - it\<close>. The variable \<^verbatim>\<open>last\<close> (here \<open>last_item\<close>) is passed on as it is: the source
  never assigns it in the loop.
\<close>

fun load_loop :: "platform \<Rightarrow> nat \<Rightarrow> nat \<Rightarrow> nat option \<Rightarrow> esp_partition_t list \<Rightarrow> esp_partition_t list" where
  "load_loop pf it 0 last_item head = head"
| "load_loop pf it (Suc n) last_item head =
     (if pi_magic (slots pf it) \<noteq> ESP_PARTITION_MAGIC pf then head
      else
        let item = load_item (slots pf it) in
        load_loop pf (Suc it) n last_item
          (case last_item of
             None \<Rightarrow> SLIST_INSERT_HEAD head item
           | Some l \<Rightarrow> SLIST_INSERT_AFTER head l item))"

definition load_partitions :: "platform \<Rightarrow> pstate \<Rightarrow> esp_err_t \<times> pstate" where
  "load_partitions pf st =
     (let st1 = st\<lparr>load_calls := Suc (load_calls st)\<rparr>;
          err = spi_flash_mmap pf
      in if err \<noteq> ESP_OK then (err, st1)
         else (ESP_OK,
               st1\<lparr>s_partition_list :=
                     load_loop pf 0 (SPI_FLASH_SEC_SIZE pf div sizeof_esp_partition_info_t)
                       None (s_partition_list st1)\<rparr>))"

subsection \<open>Iterators\<close>

text \<open>\<^verbatim>\<open>malloc\<close> hands out a new address; it is taken not to fail.\<close>

definition iterator_create :: "esp_partition_type_t \<Rightarrow> c_chars option \<Rightarrow> pstate \<Rightarrow> esp_partition_iterator_t \<times> pstate" where
  "iterator_create type label st =
     (let a = brk st;
          it = \<lparr>it_type = type, it_label = label,
                next_item = s_partition_list st, info = None\<rparr>
      in (Some a, st\<lparr>iterators := (iterators st)(a \<mapsto> it), brk := Suc a\<rparr>))"

text \<open>
  \<^verbatim>\<open>free(iterator)\<close>: nothing for \<^verbatim>\<open>NULL\<close>; undefined for an address that is not
  allocated (an iterator already released).
\<close>

definition esp_partition_iterator_release :: "esp_partition_iterator_t \<Rightarrow> pstate \<Rightarrow> fault + pstate" where
  "esp_partition_iterator_release iterator st =
     (case iterator of
        None \<Rightarrow> Inr st
      | Some a \<Rightarrow>
          (case iterators st a of
             None \<Rightarrow> Inl InvalidFree
           | Some _ \<Rightarrow> Inr (st\<lparr>iterators := (iterators st)(a := None)\<rparr>)))"

definition esp_partition_get :: "esp_partition_iterator_t \<Rightarrow> pstate \<Rightarrow> fault + esp_partition_t option" where
  "esp_partition_get iterator st =
     (case iterator of
        None \<Rightarrow> Inl AssertFail
      | Some a \<Rightarrow>
          (case iterators st a of
             None \<Rightarrow> Inl InvalidPointer
           | Some it \<Rightarrow> Inr (info it)))"

text \<open>
  The \<^verbatim>\<open>for\<close> loop of \<^verbatim>\<open>esp_partition_next\<close> over \<open>it->next_item\<close>, with its three
  \<^verbatim>\<open>continue\<close> tests in the source's order and the \<^verbatim>\<open>break\<close>: the result is the
  value of \<open>it->next_item\<close> after the loop.
\<close>

fun next_loop :: "esp_partition_type_t \<Rightarrow> c_chars option \<Rightarrow> esp_partition_t list \<Rightarrow> esp_partition_t list" where
  "next_loop type label [] = []"
| "next_loop type label (p # rest) =
     (let requested_major_type = get_major_type type;
          requested_minor_type = get_minor_type type;
          it_major_type = get_major_type (p_type p);
          it_minor_type = get_minor_type (p_type p)
      in if requested_major_type \<noteq> it_major_type then next_loop type label rest
         else if requested_minor_type \<noteq> 0xff \<and> requested_minor_type \<noteq> it_minor_type
           then next_loop type label rest
         else if label \<noteq> None \<and> strcmp (the label) (p_label p) \<noteq> 0
           then next_loop type label rest
         else p # rest)"

definition esp_partition_next :: "esp_partition_iterator_t \<Rightarrow> pstate \<Rightarrow> fault + (esp_partition_iterator_t \<times> pstate)" where
  "esp_partition_next it st =
     (case it of
        None \<Rightarrow> Inl AssertFail
      | Some a \<Rightarrow>
          (case iterators st a of
             None \<Rightarrow> Inl InvalidPointer
           | Some i \<Rightarrow>
               if next_item i = [] then Inr (None, st)
               else
                 let i1 = i\<lparr>next_item := next_loop (it_type i) (it_label i) (next_item i)\<rparr>;
                     st1 = st\<lparr>iterators := (iterators st)(a \<mapsto> i1)\<rparr>
                 in if next_item i1 = [] then
                      (case esp_partition_iterator_release it st1 of
                         Inl f \<Rightarrow> Inl f
                       | Inr st2 \<Rightarrow> Inr (None, st2))
                    else
                      Inr (it, st1\<lparr>iterators := (iterators st1)
                              (a \<mapsto> i1\<lparr>info := Some (hd (next_item i1)),
                                       next_item := tl (next_item i1)\<rparr>)\<rparr>)))"

subsection \<open>Queries\<close>

definition esp_partition_find :: "platform \<Rightarrow> esp_partition_type_t \<Rightarrow> c_chars option \<Rightarrow> pstate \<Rightarrow> fault + (esp_partition_iterator_t \<times> pstate)" where
  "esp_partition_find pf type label st =
     (let (err, st1) =
            (if SLIST_EMPTY (s_partition_list st) then
               (if SLIST_EMPTY (s_partition_list st) then load_partitions pf st
                else (ESP_OK, st))
             else (ESP_OK, st))
      in if err \<noteq> ESP_OK then Inr (None, st1)
         else
           let (it, st2) = iterator_create type label st1
           in esp_partition_next it st2)"

definition esp_partition_find_first :: "platform \<Rightarrow> esp_partition_type_t \<Rightarrow> c_chars option \<Rightarrow> pstate \<Rightarrow> fault + (esp_partition_t option \<times> pstate)" where
  "esp_partition_find_first pf type label st =
     (case esp_partition_find pf type label st of
        Inl f \<Rightarrow> Inl f
      | Inr (it, st1) \<Rightarrow>
          if it = None then Inr (None, st1)
          else
            (case esp_partition_get it st1 of
               Inl f \<Rightarrow> Inl f
             | Inr res \<Rightarrow>
                 (case esp_partition_iterator_release it st1 of
                    Inl f \<Rightarrow> Inl f
                  | Inr st2 \<Rightarrow> Inr (res, st2))))"

subsection \<open>The matcher\<close>

text \<open>
  What the loop of \<^verbatim>\<open>esp_partition_next\<close> requires of a record before its
  \<^verbatim>\<open>break\<close>, for the requested major and minor type as the loop has extracted them:
  none of its three \<^verbatim>\<open>continue\<close> tests holds.
\<close>

definition loop_accepts :: "32 word \<Rightarrow> 32 word \<Rightarrow> c_chars option \<Rightarrow> esp_partition_t \<Rightarrow> bool" where
  "loop_accepts major minor label record =
     (get_major_type (p_type record) = major \<and>
      (minor = 0xff \<or> get_minor_type (p_type record) = minor) \<and>
      (case label of None \<Rightarrow> True | Some l \<Rightarrow> c_str (p_label record) = c_str l))"

text \<open>
  The matcher as the spec words it. Section 3 of the spec gives a record a major and a
  minor type, each one byte, with the combined key \<open>(majorType << 8) | minorType\<close>:
  they are the bits 8 to 15 and the bits 0 to 7 of the key. Section 4.3: the major type
  equal to the requested one, the minor type equal unless the requested one is the
  wildcard \<open>0xFF\<close>, and the label, when one is requested, equal byte for byte as a
  string.
\<close>

definition majorType :: "esp_partition_t \<Rightarrow> 8 word" where
  "majorType record = ucast (drop_bit 8 (p_type record))"

definition minorType :: "esp_partition_t \<Rightarrow> 8 word" where
  "minorType record = ucast (p_type record)"

definition spec_matcher :: "8 word \<Rightarrow> 8 word \<Rightarrow> c_chars option \<Rightarrow> esp_partition_t \<Rightarrow> bool" where
  "spec_matcher major minor label record =
     (majorType record = major \<and>
      (minor = 0xFF \<or> minorType record = minor) \<and>
      (case label of None \<Rightarrow> True | Some l \<Rightarrow> c_str (p_label record) = c_str l))"

subsection \<open>Sequences of calls\<close>

text \<open>
  A caller's loop over an iterator: \<open>nexts k it st\<close> calls \<^verbatim>\<open>esp_partition_next\<close>
  up to \<open>k\<close> times and stops at the first \<^verbatim>\<open>NULL\<close>. The list has one entry for
  each call: the record \<^verbatim>\<open>esp_partition_get\<close> gives for the iterator returned, or
  \<open>None\<close> for a call that returned \<^verbatim>\<open>NULL\<close>.
\<close>

fun nexts :: "nat \<Rightarrow> esp_partition_iterator_t \<Rightarrow> pstate \<Rightarrow> fault + (esp_partition_t option list \<times> pstate)" where
  "nexts 0 it st = Inr ([], st)"
| "nexts (Suc k) it st =
     (case esp_partition_next it st of
        Inl f \<Rightarrow> Inl f
      | Inr (it1, st1) \<Rightarrow>
          if it1 = None then Inr ([None], st1)
          else
            (case esp_partition_get it1 st1 of
               Inl f \<Rightarrow> Inl f
             | Inr r \<Rightarrow>
                 (case nexts k it1 st1 of
                    Inl f \<Rightarrow> Inl f
                  | Inr (rs, st2) \<Rightarrow> Inr (r # rs, st2))))"

text \<open>One call of \<^verbatim>\<open>esp_partition_find\<close>, then up to \<open>k\<close> calls of \<^verbatim>\<open>esp_partition_next\<close>.\<close>

definition find_then_next :: "nat \<Rightarrow> platform \<Rightarrow> esp_partition_type_t \<Rightarrow> c_chars option \<Rightarrow> pstate \<Rightarrow> fault + (esp_partition_t option list \<times> pstate)" where
  "find_then_next k pf type label st =
     (case esp_partition_find pf type label st of
        Inl f \<Rightarrow> Inl f
      | Inr (it, st1) \<Rightarrow>
          if it = None then Inr ([None], st1)
          else
            (case esp_partition_get it st1 of
               Inl f \<Rightarrow> Inl f
             | Inr r \<Rightarrow>
                 (case nexts k it st1 of
                    Inl f \<Rightarrow> Inl f
                  | Inr (rs, st2) \<Rightarrow> Inr (r # rs, st2))))"

definition yields :: "nat \<Rightarrow> platform \<Rightarrow> esp_partition_type_t \<Rightarrow> c_chars option \<Rightarrow> pstate \<Rightarrow> fault + esp_partition_t option list" where
  "yields k pf type label st =
     (case find_then_next k pf type label st of
        Inl f \<Rightarrow> Inl f
      | Inr (rs, st1) \<Rightarrow> Inr rs)"

text \<open>The queries that can reach the loader, and a process that makes them one after the other.\<close>

datatype query =
  Find platform esp_partition_type_t "c_chars option"
| FindFirst platform esp_partition_type_t "c_chars option"

fun run_queries :: "query list \<Rightarrow> pstate \<Rightarrow> fault + pstate" where
  "run_queries [] st = Inr st"
| "run_queries (Find pf type label # qs) st =
     (case esp_partition_find pf type label st of
        Inl f \<Rightarrow> Inl f
      | Inr (it, st1) \<Rightarrow> run_queries qs st1)"
| "run_queries (FindFirst pf type label # qs) st =
     (case esp_partition_find_first pf type label st of
        Inl f \<Rightarrow> Inl f
      | Inr (res, st1) \<Rightarrow> run_queries qs st1)"

text \<open>The state of a process before its first query.\<close>

definition initial_state :: pstate where
  "initial_state = \<lparr>s_partition_list = [], iterators = (\<lambda>a. None), brk = 0, load_calls = 0\<rparr>"

subsection \<open>Concrete tables\<close>

text \<open>
  Descriptors and tables for the concrete evaluations below. \<open>descriptor\<close> has the magic
  \<open>0x50AA\<close>, \<open>blank\<close> is an erased slot (all bits set).
\<close>

definition descriptor :: "8 word \<Rightarrow> 8 word \<Rightarrow> c_chars \<Rightarrow> esp_partition_info_t" where
  "descriptor t s l =
     \<lparr>pi_magic = 0x50AA, pi_type = t, pi_subtype = s, pi_offset = 0x10000,
      pi_size = 0x1000, pi_label = l, pi_flags = 0\<rparr>"

definition blank :: esp_partition_info_t where
  "blank =
     \<lparr>pi_magic = 0xFFFF, pi_type = 0xFF, pi_subtype = 0xFF, pi_offset = 0xFFFFFFFF,
      pi_size = 0xFFFFFFFF, pi_label = replicate 16 0xFF, pi_flags = 0xFFFFFFFF\<rparr>"

definition flash_of :: "esp_partition_info_t list \<Rightarrow> platform" where
  "flash_of ds =
     \<lparr>ESP_PARTITION_MAGIC = 0x50AA, SPI_FLASH_SEC_SIZE = 4096, spi_flash_mmap = ESP_OK,
      slots = (\<lambda>i. if i < length ds then ds ! i else blank)\<rparr>"

text \<open>The labels \<open>nvs\<close>, \<open>app\<close> and \<open>phy\<close> in their 16 byte field, and a label of 16 letters \<open>a\<close>.\<close>

definition label_nvs :: c_chars where
  "label_nvs = [0x6E, 0x76, 0x73] @ replicate 13 0"

definition label_app :: c_chars where
  "label_app = [0x61, 0x70, 0x70] @ replicate 13 0"

definition label_phy :: c_chars where
  "label_phy = [0x70, 0x68, 0x79] @ replicate 13 0"

definition label_full :: c_chars where
  "label_full = replicate 16 0x61"

text \<open>A label field of 15 letters \<open>a\<close> whose last byte is erased flash: no NUL in it.\<close>

definition label_15 :: c_chars where
  "label_15 = replicate 15 0x61 @ [0xFF]"

text \<open>
  Two data partitions (type 1); an application (type 0) and a data partition; a table cut
  by an erased slot before a further descriptor; and a flash whose mapping fails with
  \<^verbatim>\<open>ESP_ERR_NO_MEM\<close>.
\<close>

definition table_data :: platform where
  "table_data = flash_of [descriptor 1 2 label_nvs, descriptor 1 1 label_phy]"

definition table_mixed :: platform where
  "table_mixed = flash_of [descriptor 0 0 label_app, descriptor 1 2 label_nvs]"

definition table_cut :: platform where
  "table_cut = flash_of [descriptor 1 2 label_nvs, blank, descriptor 1 1 label_phy]"

definition flash_failing :: platform where
  "flash_failing = (flash_of [descriptor 1 2 label_nvs])\<lparr>spi_flash_mmap := 0x101\<rparr>"

text \<open>
  States of a process that has loaded \<open>table_mixed\<close>: with one iterator for the data
  partitions that stands on the first of them, and after that iterator has run to the
  end of the list. And a state whose table holds one record, with no iterator.
\<close>

definition data_cursor :: esp_partition_iterator_opaque_t where
  "data_cursor =
     \<lparr>it_type = pack_type 1 0xff, it_label = None,
      next_item = [load_item (descriptor 0 0 label_app)],
      info = Some (load_item (descriptor 1 2 label_nvs))\<rparr>"

definition state_positioned :: pstate where
  "state_positioned =
     \<lparr>s_partition_list =
        [load_item (descriptor 1 2 label_nvs), load_item (descriptor 0 0 label_app)],
      iterators = (\<lambda>a. None)(0 \<mapsto> data_cursor), brk = 1, load_calls = 1\<rparr>"

definition state_exhausted :: pstate where
  "state_exhausted = state_positioned\<lparr>iterators := (\<lambda>a. None)\<rparr>"

definition state_loaded :: pstate where
  "state_loaded =
     \<lparr>s_partition_list = [load_item (descriptor 1 2 label_nvs)],
      iterators = (\<lambda>a. None), brk = 0, load_calls = 1\<rparr>"

section \<open>Properties\<close>

subsection \<open>Type keys\<close>

lemma ff_mask: "(0xff::32 word) = mask 8"
  by (simp add: mask_eq_exp_minus_1)

lemma get_major_type_pack: "get_major_type (pack_type t s) = ucast t"
  unfolding get_major_type_def pack_type_def ff_mask
  by (rule bit_word_eqI) (auto simp: bit_simps dest: bit_imp_le_length)

lemma get_minor_type_pack: "get_minor_type (pack_type t s) = ucast s"
  unfolding get_minor_type_def pack_type_def ff_mask
  by (rule bit_word_eqI) (auto simp: bit_simps dest: bit_imp_le_length)

lemma ucast_byte_roundtrip: "(ucast (ucast (b :: 8 word) :: 32 word) :: 8 word) = b"
  by (rule bit_word_eqI) (auto simp: bit_simps)

text \<open>
  C10. For all bytes \<open>t\<close> and \<open>s\<close>, \<^verbatim>\<open>get_major_type\<close> and \<^verbatim>\<open>get_minor_type\<close>
  of the key \<^verbatim>\<open>(t << 8) | s\<close> the loader builds are \<open>t\<close> and \<open>s\<close>, as 32-bit values
  and, cut back to a byte, as the bytes themselves.
\<close>

theorem pack_type_roundtrip:
  "get_major_type (pack_type t s) = ucast t \<and>
   get_minor_type (pack_type t s) = ucast s \<and>
   (ucast (get_major_type (pack_type t s)) :: 8 word) = t \<and>
   (ucast (get_minor_type (pack_type t s)) :: 8 word) = s"
  by (simp add: get_major_type_pack get_minor_type_pack ucast_byte_roundtrip)

subsection \<open>The matcher\<close>

lemma strcmp_eq_0: "(strcmp a b = 0) = (c_str a = c_str b)"
  by (induction a b rule: strcmp.induct) (auto simp: c_str_def uint_0_iff dest: word_uint_eqI)

lemma length_next_loop: "length (next_loop ty lbl xs) \<le> length xs"
  by (induction xs) (auto simp: Let_def)

lemma next_loop_neq_Cons: "next_loop ty lbl rest \<noteq> p # rest"
  using length_next_loop [of ty lbl rest] by (auto dest: arg_cong [where f = length])

lemma next_loop_head_iff:
  "(next_loop ty lbl (p # rest) = p # rest) =
     loop_accepts (get_major_type ty) (get_minor_type ty) lbl p"
  by (cases lbl) (auto simp: loop_accepts_def Let_def next_loop_neq_Cons strcmp_eq_0)

lemma next_loop_dropWhile:
  "next_loop ty lbl xs =
     dropWhile (\<lambda>p. \<not> loop_accepts (get_major_type ty) (get_minor_type ty) lbl p) xs"
proof (induction xs)
  case Nil
  show ?case by simp
next
  case (Cons p rest)
  show ?case
  proof (cases "loop_accepts (get_major_type ty) (get_minor_type ty) lbl p")
    case True
    then show ?thesis using next_loop_head_iff [of ty lbl p rest] by simp
  next
    case False
    then have "next_loop ty lbl (p # rest) = next_loop ty lbl rest"
      by (cases lbl) (auto simp: loop_accepts_def Let_def strcmp_eq_0)
    with False Cons show ?thesis by simp
  qed
qed

lemma next_loop_find:
  "(case next_loop ty lbl xs of [] \<Rightarrow> None | p # rest \<Rightarrow> Some p) =
     find (loop_accepts (get_major_type ty) (get_minor_type ty) lbl) xs"
  by (simp add: next_loop_dropWhile find_dropWhile comp_def)

lemma low_byte_eq_iff:
  "((a :: 32 word) AND mask 8 = b AND mask 8) = ((ucast a :: 8 word) = ucast b)"
proof
  have h: "(ucast (x AND mask 8) :: 8 word) = ucast x" for x :: "32 word"
    by (rule bit_word_eqI) (auto simp: bit_simps)
  assume "a AND mask 8 = b AND mask 8"
  then have "(ucast (a AND mask 8) :: 8 word) = ucast (b AND mask 8)" by simp
  then show "(ucast a :: 8 word) = ucast b" by (simp only: h)
next
  have h: "(ucast (ucast x :: 8 word) :: 32 word) = x AND mask 8" for x :: "32 word"
    by (rule bit_word_eqI) (auto simp: bit_simps)
  assume "(ucast a :: 8 word) = ucast b"
  then have "(ucast (ucast a :: 8 word) :: 32 word) = ucast (ucast b :: 8 word)" by simp
  then show "a AND mask 8 = b AND mask 8" by (simp only: h)
qed

lemma get_major_type_eq_iff:
  "(get_major_type x = get_major_type y) =
     ((ucast (drop_bit 8 x) :: 8 word) = ucast (drop_bit 8 y))"
  by (simp add: get_major_type_def ff_mask low_byte_eq_iff)

lemma get_minor_type_eq_iff:
  "(get_minor_type x = get_minor_type y) = ((ucast x :: 8 word) = ucast y)"
  by (simp add: get_minor_type_def ff_mask low_byte_eq_iff)

lemma get_minor_type_ff_iff:
  "(get_minor_type x = 0xff) = ((ucast x :: 8 word) = 0xff)"
proof -
  have "(0xff :: 32 word) = 0xff AND mask 8" by (simp add: mask_eq_exp_minus_1)
  then have "(get_minor_type x = 0xff) = (x AND mask 8 = 0xff AND mask 8)"
    by (simp add: get_minor_type_def ff_mask)
  also have "\<dots> = ((ucast x :: 8 word) = ucast (0xff :: 32 word))"
    by (rule low_byte_eq_iff)
  finally show ?thesis by simp
qed

lemma loop_accepts_spec:
  "loop_accepts (get_major_type ty) (get_minor_type ty) lbl p =
     spec_matcher (ucast (drop_bit 8 ty)) (ucast ty) lbl p"
  by (simp add: loop_accepts_def spec_matcher_def majorType_def minorType_def
        get_major_type_eq_iff get_minor_type_eq_iff get_minor_type_ff_iff)

lemma ucast_drop_pack: "(ucast (drop_bit 8 (pack_type t s)) :: 8 word) = t"
  unfolding pack_type_def
  by (rule bit_word_eqI) (auto simp: bit_simps dest: bit_imp_le_length)

lemma ucast_pack: "(ucast (pack_type t s) :: 8 word) = s"
  unfolding pack_type_def
  by (rule bit_word_eqI) (auto simp: bit_simps dest: bit_imp_le_length)

text \<open>
  C2. The loop of \<^verbatim>\<open>esp_partition_next\<close> stops at the record \<open>p\<close> it looks at (the
  matcher accepts \<open>p\<close>) if and only if the bits 8 to 15 of the record's key are the bits
  8 to 15 of the requested type (the major types are equal), the bits 0 to 7 of the
  requested type are \<open>0xFF\<close> or are the bits 0 to 7 of the record's key (the minor type is
  the wildcard or equal), and no label is requested or the record's label is, as a
  string, byte for byte the requested one. For a request built from the bytes \<open>major\<close>
  and \<open>minor\<close> and a record loaded from a descriptor, these are the descriptor's type
  byte equal to \<open>major\<close> and, unless \<open>minor\<close> is \<open>0xFF\<close>, its subtype byte equal to
  \<open>minor\<close>.
\<close>

theorem matcher_accepts_iff:
  "(next_loop type label (p # rest) = p # rest) =
     ((ucast (drop_bit 8 (p_type p)) :: 8 word) = ucast (drop_bit 8 type) \<and>
      ((ucast type :: 8 word) = 0xff \<or> (ucast (p_type p) :: 8 word) = ucast type) \<and>
      (case label of None \<Rightarrow> True | Some l \<Rightarrow> c_str (p_label p) = c_str l)) \<and>
   (next_loop (pack_type major minor) label (load_item d # rest) = load_item d # rest) =
     (pi_type d = major \<and>
      (minor = 0xff \<or> pi_subtype d = minor) \<and>
      (case label of None \<Rightarrow> True | Some l \<Rightarrow> c_str (p_label (load_item d)) = c_str l))"
proof -
  have g: "(next_loop ty label (q # rest) = q # rest) =
     ((ucast (drop_bit 8 (p_type q)) :: 8 word) = ucast (drop_bit 8 ty) \<and>
      ((ucast ty :: 8 word) = 0xff \<or> (ucast (p_type q) :: 8 word) = ucast ty) \<and>
      (case label of None \<Rightarrow> True | Some l \<Rightarrow> c_str (p_label q) = c_str l))" for ty q
    unfolding next_loop_head_iff loop_accepts_spec
    by (simp add: spec_matcher_def majorType_def minorType_def)
  have t: "p_type (load_item d) = pack_type (pi_type d) (pi_subtype d)"
    by (simp add: load_item_def)
  show ?thesis
    using g [of type p] g [of "pack_type major minor" "load_item d"]
    by (simp only: t ucast_drop_pack ucast_pack)
qed

theorem matcher_accepts_iff_witness:
  "next_loop (pack_type 1 0xff) (Some [0x6E, 0x76, 0x73])
     [load_item (descriptor 1 2 label_nvs), load_item (descriptor 1 3 label_app)] =
     [load_item (descriptor 1 2 label_nvs), load_item (descriptor 1 3 label_app)]"
  by (rule iffD2 [OF conjunct2 [OF matcher_accepts_iff]])
     (simp add: load_item_def descriptor_def strncpy_def c_str_def label_nvs_def)

subsection \<open>The loader\<close>

lemma load_loop_prefix:
  "\<lbrakk>\<forall>i<k. pi_magic (slots pf (it + i)) = ESP_PARTITION_MAGIC pf; k \<le> n;
    k < n \<longrightarrow> pi_magic (slots pf (it + k)) \<noteq> ESP_PARTITION_MAGIC pf\<rbrakk>
   \<Longrightarrow> load_loop pf it n None head =
       rev (map (\<lambda>i. load_item (slots pf i)) [it..<it + k]) @ head"
proof (induction n arbitrary: it k head)
  case 0
  then show ?case by simp
next
  case (Suc n)
  show ?case
  proof (cases k)
    case 0
    with Suc.prems show ?thesis by simp
  next
    case (Suc j)
    have m0: "pi_magic (slots pf it) = ESP_PARTITION_MAGIC pf"
      using Suc.prems(1) Suc by (metis add.right_neutral zero_less_Suc)
    have a: "\<forall>i<j. pi_magic (slots pf (Suc it + i)) = ESP_PARTITION_MAGIC pf"
      using Suc.prems(1) Suc by auto
    have b: "j \<le> n" using Suc.prems(2) Suc by simp
    have c: "j < n \<longrightarrow> pi_magic (slots pf (Suc it + j)) \<noteq> ESP_PARTITION_MAGIC pf"
      using Suc.prems(3) Suc by simp
    have "load_loop pf (Suc it) n None (load_item (slots pf it) # head) =
       rev (map (\<lambda>i. load_item (slots pf i)) [Suc it..<Suc it + j]) @ load_item (slots pf it) # head"
      by (rule Suc.IH [OF a b c])
    then show ?thesis using m0 Suc
      by (simp add: SLIST_INSERT_HEAD_def upt_rec [of it])
  qed
qed

subsection \<open>Iterators and queries\<close>

lemma esp_partition_next_eq:
  assumes "iterators st a = Some i"
  shows "esp_partition_next (Some a) st =
     (case next_loop (it_type i) (it_label i) (next_item i) of
        [] \<Rightarrow> if next_item i = [] then Inr (None, st)
              else Inr (None, st\<lparr>iterators := (iterators st)(a := None)\<rparr>)
      | p # rest \<Rightarrow>
          Inr (Some a, st\<lparr>iterators := (iterators st)(a \<mapsto> i\<lparr>info := Some p, next_item := rest\<rparr>)\<rparr>))"
proof (cases "next_item i = []")
  case True
  then show ?thesis using assms by (simp add: esp_partition_next_def)
next
  case False
  then show ?thesis using assms
    by (cases "next_loop (it_type i) (it_label i) (next_item i)")
       (simp_all add: esp_partition_next_def esp_partition_iterator_release_def Let_def
          del: next_loop.simps)
qed

lemma esp_partition_find_eq:
  "esp_partition_find pf ty lbl st =
     (if s_partition_list st = [] \<and> spi_flash_mmap pf \<noteq> ESP_OK
      then Inr (None, st\<lparr>load_calls := Suc (load_calls st)\<rparr>)
      else
        let st1 = (if s_partition_list st = [] then snd (load_partitions pf st) else st)
        in esp_partition_next (Some (brk st1))
             (st1\<lparr>iterators := (iterators st1)(brk st1 \<mapsto>
                      \<lparr>it_type = ty, it_label = lbl, next_item = s_partition_list st1, info = None\<rparr>),
                   brk := Suc (brk st1)\<rparr>))"
  by (simp add: esp_partition_find_def SLIST_EMPTY_def load_partitions_def Let_def
        iterator_create_def)

lemma esp_partition_find_post:
  "\<exists>it st1. esp_partition_find pf ty lbl st = Inr (it, st1) \<and>
     load_calls st1 = (if s_partition_list st = [] then Suc (load_calls st) else load_calls st) \<and>
     (s_partition_list st \<noteq> [] \<longrightarrow> s_partition_list st1 = s_partition_list st) \<and>
     (case it of
        None \<Rightarrow> find (loop_accepts (get_major_type ty) (get_minor_type ty) lbl) (s_partition_list st1) = None
      | Some a \<Rightarrow> \<exists>i. iterators st1 a = Some i \<and> info i \<noteq> None \<and>
                    info i = find (loop_accepts (get_major_type ty) (get_minor_type ty) lbl) (s_partition_list st1))"
proof (cases "s_partition_list st = [] \<and> spi_flash_mmap pf \<noteq> ESP_OK")
  case True
  then show ?thesis by (simp add: esp_partition_find_eq)
next
  case False
  define st1 where "st1 = (if s_partition_list st = [] then snd (load_partitions pf st) else st)"
  define st2 where "st2 = st1\<lparr>iterators := (iterators st1)(brk st1 \<mapsto>
                      \<lparr>it_type = ty, it_label = lbl, next_item = s_partition_list st1, info = None\<rparr>),
                   brk := Suc (brk st1)\<rparr>"
  have f: "esp_partition_find pf ty lbl st = esp_partition_next (Some (brk st1)) st2"
    using False by (auto simp add: esp_partition_find_eq st1_def st2_def Let_def)
  have lc: "load_calls st2 = (if s_partition_list st = [] then Suc (load_calls st) else load_calls st)"
    by (simp add: st2_def st1_def load_partitions_def Let_def)
  have l2: "s_partition_list st2 = s_partition_list st1" by (simp add: st2_def)
  have l1: "s_partition_list st \<noteq> [] \<longrightarrow> s_partition_list st1 = s_partition_list st"
    by (simp add: st1_def)
  have it: "iterators st2 (brk st1) = Some \<lparr>it_type = ty, it_label = lbl, next_item = s_partition_list st1, info = None\<rparr>"
    by (simp add: st2_def)
  show ?thesis
  proof (cases "next_loop ty lbl (s_partition_list st1)")
    case Nil
    then have "find (loop_accepts (get_major_type ty) (get_minor_type ty) lbl) (s_partition_list st1) = None"
      using next_loop_find [of ty lbl "s_partition_list st1"] by simp
    with Nil f lc l1 l2 show ?thesis
      by (auto simp add: esp_partition_next_eq [OF it])
  next
    case (Cons p rest)
    then have "find (loop_accepts (get_major_type ty) (get_minor_type ty) lbl) (s_partition_list st1) = Some p"
      using next_loop_find [of ty lbl "s_partition_list st1"] by simp
    with Cons f lc l1 l2 show ?thesis
      by (simp add: esp_partition_next_eq [OF it])
  qed
qed

subsection \<open>What the loader reads\<close>

lemma load_loop_takeWhile:
  "load_loop pf it n None head =
     rev (map load_item
       (takeWhile (\<lambda>d. pi_magic d = ESP_PARTITION_MAGIC pf) (map (slots pf) [it..<it + n]))) @ head"
proof (induction n arbitrary: it head)
  case 0
  show ?case by simp
next
  case (Suc n)
  have "[it..<it + Suc n] = it # [Suc it..<Suc it + n]"
    by (simp add: upt_rec [of it])
  then show ?case using Suc.IH [of "Suc it"]
    by (simp add: SLIST_INSERT_HEAD_def)
qed

lemma load_loop_first_invalid:
  "pi_magic (slots pf it) \<noteq> ESP_PARTITION_MAGIC pf \<Longrightarrow> load_loop pf it n last_item head = head"
  by (cases n) simp_all

lemma slots_flash_of:
  "map (slots (flash_of ds)) [0..<n] = take n ds @ replicate (n - length ds) blank"
  by (rule nth_equalityI) (auto simp: flash_of_def nth_append)

lemma takeWhile_pad: "\<not> P b \<Longrightarrow> takeWhile P (xs @ replicate m b) = takeWhile P xs"
proof (induction xs)
  case Nil
  then show ?case by (cases m) simp_all
next
  case (Cons a xs)
  then show ?case by simp
qed

lemma flash_of_consts:
  "ESP_PARTITION_MAGIC (flash_of ds) = 0x50AA"
  "SPI_FLASH_SEC_SIZE (flash_of ds) div sizeof_esp_partition_info_t = 128"
  "spi_flash_mmap (flash_of ds) = ESP_OK"
  by (simp_all add: flash_of_def sizeof_esp_partition_info_t_def)

lemma valid_flash_of:
  assumes "length ds \<le> 128"
  shows "takeWhile (\<lambda>d. pi_magic d = ESP_PARTITION_MAGIC (flash_of ds))
      (map (slots (flash_of ds)) [0..<SPI_FLASH_SEC_SIZE (flash_of ds) div sizeof_esp_partition_info_t]) =
    takeWhile (\<lambda>d. pi_magic d = 0x50AA) ds"
proof -
  have "\<not> pi_magic blank = 0x50AA" by (simp add: blank_def)
  then show ?thesis using assms
    by (simp add: flash_of_consts slots_flash_of takeWhile_pad)
qed

lemma load_partitions_flash_of:
  assumes "length ds \<le> 128"
  shows "load_partitions (flash_of ds) st =
    (ESP_OK, st\<lparr>load_calls := Suc (load_calls st),
                 s_partition_list :=
                   rev (map load_item (takeWhile (\<lambda>d. pi_magic d = 0x50AA) ds)) @ s_partition_list st\<rparr>)"
  using valid_flash_of [OF assms]
  by (simp add: load_partitions_def Let_def load_loop_takeWhile flash_of_consts)

text \<open>
  C3. When the mapping succeeds, the loader adds to the list exactly the records of the
  slots \<open>0, 1, 2, \<dots>\<close> counted from the table's base, up to and without the first slot
  whose magic is not \<^verbatim>\<open>ESP_PARTITION_MAGIC\<close>, and never looks beyond the first
  \<^verbatim>\<open>SPI_FLASH_SEC_SIZE / sizeof(esp_partition_info_t)\<close> slots: the records it adds
  are those of the longest prefix of valid slots among these. The slots after the first
  mismatch do not occur in the result, whatever they hold.
\<close>

theorem load_partitions_scan:
  assumes "spi_flash_mmap pf = ESP_OK"
  shows "fst (load_partitions pf st) = ESP_OK \<and>
    mset (s_partition_list (snd (load_partitions pf st))) =
      mset (map load_item
        (takeWhile (\<lambda>d. pi_magic d = ESP_PARTITION_MAGIC pf)
           (map (slots pf) [0..<SPI_FLASH_SEC_SIZE pf div sizeof_esp_partition_info_t])))
      + mset (s_partition_list st) \<and>
    length (s_partition_list (snd (load_partitions pf st))) \<le>
      SPI_FLASH_SEC_SIZE pf div sizeof_esp_partition_info_t + length (s_partition_list st)"
proof -
  let ?n = "SPI_FLASH_SEC_SIZE pf div sizeof_esp_partition_info_t"
  let ?valid = "takeWhile (\<lambda>d. pi_magic d = ESP_PARTITION_MAGIC pf) (map (slots pf) [0..<?n])"
  have l: "s_partition_list (snd (load_partitions pf st)) =
      rev (map load_item ?valid) @ s_partition_list st"
    using assms load_loop_takeWhile [of pf 0 ?n "s_partition_list st"]
    by (simp add: load_partitions_def Let_def)
  have "length ?valid \<le> length (map (slots pf) [0..<?n])"
    by (rule length_takeWhile_le)
  then have "length ?valid \<le> ?n" by simp
  with l assms show ?thesis by (simp add: load_partitions_def Let_def)
qed

theorem load_partitions_scan_witness:
  "fst (load_partitions table_cut initial_state) = ESP_OK \<and>
   mset (s_partition_list (snd (load_partitions table_cut initial_state))) =
     {#load_item (descriptor 1 2 label_nvs)#}"
proof -
  have ok: "spi_flash_mmap table_cut = ESP_OK"
    by (simp add: table_cut_def flash_of_consts)
  have "takeWhile (\<lambda>d. pi_magic d = ESP_PARTITION_MAGIC table_cut)
      (map (slots table_cut) [0..<SPI_FLASH_SEC_SIZE table_cut div sizeof_esp_partition_info_t]) =
    [descriptor 1 2 label_nvs]"
    unfolding table_cut_def by (subst valid_flash_of) (simp_all add: descriptor_def blank_def)
  then show ?thesis
    using load_partitions_scan [OF ok, of initial_state] by (simp add: initial_state_def)
qed

subsection \<open>Labels\<close>

lemma c_str_idem_pad: "c_str (c_str l @ replicate n 0 @ [0]) = c_str l"
proof -
  have "takeWhile (\<lambda>c. c \<noteq> 0) (replicate n (0::8 word) @ [0]) = []"
    by (cases n) simp_all
  then show ?thesis
    unfolding c_str_def
    by (subst takeWhile_append2) (auto dest: set_takeWhileD)
qed

lemma c_str_no_nul: "0 \<notin> set l \<Longrightarrow> c_str l = l"
  by (auto simp: c_str_def)

lemma label_full_eq: "label_full = [97, 97, 97, 97, 97, 97, 97, 97, 97, 97, 97, 97, 97, 97, 97, 97]"
  by (simp add: label_full_def eval_nat_numeral)

text \<open>
  C5, as amended. The label field of a descriptor has 16 bytes and the record's buffer
  17: the loaded label is NUL-terminated (the byte at index 16 is NUL) and is, as a
  string, the bytes of the field before its first NUL. A field of 16 characters with no
  terminator gives a label of exactly these 16 characters; the bound on a label is 16
  bytes, not 15.
\<close>

theorem label_loaded:
  assumes "length (pi_label d) = 16"
  shows "c_str (p_label (load_item d)) = c_str (pi_label d) \<and>
    length (p_label (load_item d)) = 17 \<and>
    p_label (load_item d) ! 16 = 0 \<and>
    length (c_str (p_label (load_item d))) \<le> 16 \<and>
    (0 \<notin> set (pi_label d) \<longrightarrow> c_str (p_label (load_item d)) = pi_label d)"
proof -
  have len: "length (c_str (pi_label d)) \<le> 16"
    using assms length_takeWhile_le [of "\<lambda>c. c \<noteq> 0" "pi_label d"] by (simp add: c_str_def)
  have buf: "p_label (load_item d) =
      c_str (pi_label d) @ replicate (16 - length (c_str (pi_label d))) 0 @ [0]"
    using assms by (simp add: load_item_def strncpy_def Let_def)
  have a: "c_str (p_label (load_item d)) = c_str (pi_label d)"
    unfolding buf by (rule c_str_idem_pad)
  have b: "length (p_label (load_item d)) = 17"
    unfolding buf using len by simp
  have c: "p_label (load_item d) ! 16 = 0"
    unfolding buf using len by (simp add: nth_append)
  show ?thesis using a b c len by (simp add: c_str_no_nul)
qed

theorem label_loaded_witness:
  "c_str (p_label (load_item (descriptor 0 0 label_full))) = label_full \<and>
   length (c_str (p_label (load_item (descriptor 0 0 label_full)))) = 16"
  using label_loaded [of "descriptor 0 0 label_full"]
  by (simp add: descriptor_def label_full_eq c_str_def)

text \<open>
  C5 as the spec states it fails: a field of 15 letters followed by the byte \<open>0xFF\<close>
  holds 15 usable characters and no terminator, and the label loaded from it has 16
  bytes, the 15 letters and the byte after them; it is not the string of the 15 letters.
\<close>

theorem label_15_counterexample:
  "length (pi_label (descriptor 0 0 label_15)) = 16 \<and>
   0 \<notin> set (pi_label (descriptor 0 0 label_15)) \<and>
   take 15 (pi_label (descriptor 0 0 label_15)) = replicate 15 0x61 \<and>
   length (c_str (p_label (load_item (descriptor 0 0 label_15)))) = 16 \<and>
   c_str (p_label (load_item (descriptor 0 0 label_15))) \<noteq> replicate 15 0x61"
proof -
  have r: "replicate 15 (0x61 :: 8 word) =
      [97, 97, 97, 97, 97, 97, 97, 97, 97, 97, 97, 97, 97, 97, 97]"
    by (simp add: eval_nat_numeral)
  show ?thesis
    by (simp add: descriptor_def label_15_def r load_item_def strncpy_def c_str_def)
qed

subsection \<open>Empty tables and failed mappings\<close>

text \<open>
  C6. When the mapping succeeds and the first slot has an invalid magic, the load returns
  \<^verbatim>\<open>ESP_OK\<close> with an empty list, and \<^verbatim>\<open>esp_partition_find\<close> and
  \<^verbatim>\<open>esp_partition_find_first\<close> return \<^verbatim>\<open>NULL\<close> at once, without a fault; the
  error code of the load is \<^verbatim>\<open>ESP_OK\<close>, so no error reaches the caller.
\<close>

theorem empty_table_is_not_an_error:
  assumes "spi_flash_mmap pf = ESP_OK"
    and "s_partition_list st = []"
    and "pi_magic (slots pf 0) \<noteq> ESP_PARTITION_MAGIC pf"
  shows "fst (load_partitions pf st) = ESP_OK \<and>
    s_partition_list (snd (load_partitions pf st)) = [] \<and>
    (\<exists>st'. esp_partition_find pf type label st = Inr (None, st') \<and> s_partition_list st' = []) \<and>
    (\<exists>st'. esp_partition_find_first pf type label st = Inr (None, st') \<and> s_partition_list st' = [])"
proof -
  have l: "fst (load_partitions pf st) = ESP_OK \<and> s_partition_list (snd (load_partitions pf st)) = []"
    using assms by (simp add: load_partitions_def Let_def load_loop_first_invalid)
  define st1 where "st1 = snd (load_partitions pf st)"
  define st2 where "st2 = st1\<lparr>iterators := (iterators st1)(brk st1 \<mapsto>
      \<lparr>it_type = type, it_label = label, next_item = s_partition_list st1, info = None\<rparr>),
      brk := Suc (brk st1)\<rparr>"
  have it: "iterators st2 (brk st1) =
      Some \<lparr>it_type = type, it_label = label, next_item = s_partition_list st1, info = None\<rparr>"
    by (simp add: st2_def)
  have e: "s_partition_list st1 = []" using l by (simp add: st1_def)
  have "esp_partition_find pf type label st = esp_partition_next (Some (brk st1)) st2"
    using assms by (simp add: esp_partition_find_eq st1_def st2_def Let_def)
  also have "\<dots> = Inr (None, st2)"
    using e by (simp add: esp_partition_next_eq [OF it])
  finally have f: "esp_partition_find pf type label st = Inr (None, st2)" .
  have e2: "s_partition_list st2 = []" using e by (simp add: st2_def)
  from f have "esp_partition_find_first pf type label st = Inr (None, st2)"
    by (simp add: esp_partition_find_first_def)
  with l f e2 show ?thesis by simp
qed

theorem empty_table_is_not_an_error_witness:
  "fst (load_partitions (flash_of []) initial_state) = ESP_OK \<and>
   s_partition_list (snd (load_partitions (flash_of []) initial_state)) = [] \<and>
   (\<exists>st'. esp_partition_find (flash_of []) (pack_type 1 0xff) None initial_state = Inr (None, st') \<and>
      s_partition_list st' = []) \<and>
   (\<exists>st'. esp_partition_find_first (flash_of []) (pack_type 1 0xff) None initial_state = Inr (None, st') \<and>
      s_partition_list st' = [])"
proof -
  have a: "spi_flash_mmap (flash_of []) = ESP_OK" by (simp add: flash_of_consts)
  have b: "s_partition_list initial_state = []" by (simp add: initial_state_def)
  have c: "pi_magic (slots (flash_of []) 0) \<noteq> ESP_PARTITION_MAGIC (flash_of [])"
    by (simp add: flash_of_def blank_def)
  show ?thesis by (rule empty_table_is_not_an_error [OF a b c])
qed

text \<open>
  C7. When \<^verbatim>\<open>spi_flash_mmap\<close> fails, \<^verbatim>\<open>load_partitions\<close> returns its error code
  and changes nothing but the count of its executions: no record is built and the list
  stays empty. \<^verbatim>\<open>esp_partition_find\<close> returns \<^verbatim>\<open>NULL\<close> and allocates no
  iterator. Any later \<^verbatim>\<open>esp_partition_find\<close> runs the loader again, and builds the
  table when the mapping then succeeds.
\<close>

theorem mmap_failure_leaves_table_unbuilt:
  assumes "spi_flash_mmap pf \<noteq> ESP_OK"
    and "s_partition_list st = []"
  shows "load_partitions pf st = (spi_flash_mmap pf, st\<lparr>load_calls := Suc (load_calls st)\<rparr>) \<and>
    esp_partition_find pf type label st = Inr (None, st\<lparr>load_calls := Suc (load_calls st)\<rparr>) \<and>
    s_partition_list (st\<lparr>load_calls := Suc (load_calls st)\<rparr>) = [] \<and>
    (\<exists>it st'. esp_partition_find pf' type' label' (st\<lparr>load_calls := Suc (load_calls st)\<rparr>) = Inr (it, st') \<and>
       load_calls st' = Suc (Suc (load_calls st)) \<and>
       (spi_flash_mmap pf' = ESP_OK \<longrightarrow>
          s_partition_list st' =
            load_loop pf' 0 (SPI_FLASH_SEC_SIZE pf' div sizeof_esp_partition_info_t) None []))"
proof -
  let ?st1 = "st\<lparr>load_calls := Suc (load_calls st)\<rparr>"
  have a: "load_partitions pf st = (spi_flash_mmap pf, ?st1)"
    using assms by (simp add: load_partitions_def Let_def)
  have b: "esp_partition_find pf type label st = Inr (None, ?st1)"
    using assms by (simp add: esp_partition_find_eq)
  have c: "s_partition_list ?st1 = []" using assms by simp
  obtain it st' where f: "esp_partition_find pf' type' label' ?st1 = Inr (it, st')"
    and lc: "load_calls st' = Suc (load_calls ?st1)"
    using esp_partition_find_post [of pf' type' label' ?st1] c by auto
  have d: "spi_flash_mmap pf' = ESP_OK \<longrightarrow>
      s_partition_list st' = load_loop pf' 0 (SPI_FLASH_SEC_SIZE pf' div sizeof_esp_partition_info_t) None []"
  proof
    assume ok: "spi_flash_mmap pf' = ESP_OK"
    define st2 where "st2 = snd (load_partitions pf' ?st1)"
    define i0 where "i0 = \<lparr>it_type = type', it_label = label', next_item = s_partition_list st2, info = None\<rparr>"
    define st3 where "st3 = st2\<lparr>iterators := (iterators st2)(brk st2 \<mapsto> i0), brk := Suc (brk st2)\<rparr>"
    have it: "iterators st3 (brk st2) = Some i0" by (simp add: st3_def)
    have l2: "s_partition_list st2 =
        load_loop pf' 0 (SPI_FLASH_SEC_SIZE pf' div sizeof_esp_partition_info_t) None []"
      using ok c by (simp add: st2_def load_partitions_def Let_def)
    have "esp_partition_find pf' type' label' ?st1 = esp_partition_next (Some (brk st2)) st3"
      using ok c by (simp add: esp_partition_find_eq st2_def st3_def i0_def Let_def)
    with f have "esp_partition_next (Some (brk st2)) st3 = Inr (it, st')" by simp
    then have "s_partition_list st' = s_partition_list st3"
      by (auto simp: esp_partition_next_eq [OF it] split: list.splits if_splits)
    then show "s_partition_list st' =
        load_loop pf' 0 (SPI_FLASH_SEC_SIZE pf' div sizeof_esp_partition_info_t) None []"
      using l2 by (simp add: st3_def)
  qed
  from a b c f lc d show ?thesis by simp
qed

theorem mmap_failure_leaves_table_unbuilt_witness:
  "load_partitions flash_failing initial_state = (0x101, initial_state\<lparr>load_calls := 1\<rparr>) \<and>
   esp_partition_find flash_failing (pack_type 1 0xff) None initial_state =
     Inr (None, initial_state\<lparr>load_calls := 1\<rparr>) \<and>
   (\<exists>it st'. esp_partition_find table_data (pack_type 1 0xff) None (initial_state\<lparr>load_calls := 1\<rparr>) =
       Inr (it, st') \<and> load_calls st' = 2)"
proof -
  have a: "spi_flash_mmap flash_failing \<noteq> ESP_OK"
    by (simp add: flash_failing_def ESP_OK_def)
  have b: "s_partition_list initial_state = []" by (simp add: initial_state_def)
  have c: "spi_flash_mmap flash_failing = 0x101" by (simp add: flash_failing_def)
  have d: "load_calls initial_state = 0" by (simp add: initial_state_def)
  show ?thesis
    using mmap_failure_leaves_table_unbuilt [OF a b, of "pack_type 1 0xff" None table_data "pack_type 1 0xff" None]
    by (auto simp: c d)
qed

subsection \<open>Find first\<close>

text \<open>
  \<^verbatim>\<open>esp_partition_find_first\<close> never faults. It returns the record of the iterator
  \<^verbatim>\<open>esp_partition_find\<close> returns, which is the first record in the order of the list
  \<^verbatim>\<open>s_partition_list\<close> that the loop accepts, or \<^verbatim>\<open>NULL\<close> when there is none, and
  it leaves the state of \<^verbatim>\<open>esp_partition_find\<close> with that iterator released.
\<close>

lemma esp_partition_find_first_eq:
  "\<exists>it st1. esp_partition_find pf type label st = Inr (it, st1) \<and>
     esp_partition_find_first pf type label st =
       Inr (find (loop_accepts (get_major_type type) (get_minor_type type) label)
              (s_partition_list st1),
            case it of
              None \<Rightarrow> st1
            | Some a \<Rightarrow> st1\<lparr>iterators := (iterators st1)(a := None)\<rparr>)"
proof -
  obtain it st1 where f: "esp_partition_find pf type label st = Inr (it, st1)"
    and c: "case it of
        None \<Rightarrow> find (loop_accepts (get_major_type type) (get_minor_type type) label)
                  (s_partition_list st1) = None
      | Some a \<Rightarrow> \<exists>i. iterators st1 a = Some i \<and> info i \<noteq> None \<and>
          info i = find (loop_accepts (get_major_type type) (get_minor_type type) label)
                     (s_partition_list st1)"
    using esp_partition_find_post [of pf type label st] by blast
  show ?thesis
  proof (cases it)
    case None
    with f c show ?thesis by (simp add: esp_partition_find_first_def)
  next
    case (Some a)
    with c obtain i where i: "iterators st1 a = Some i"
      and r: "info i = find (loop_accepts (get_major_type type) (get_minor_type type) label)
                     (s_partition_list st1)"
      by auto
    with f Some show ?thesis
      by (simp add: esp_partition_find_first_def esp_partition_get_def
            esp_partition_iterator_release_def)
  qed
qed

subsection \<open>How often the loader runs\<close>

lemma esp_partition_find_first_post:
  "\<exists>res st2. esp_partition_find_first pf ty lbl st = Inr (res, st2) \<and>
     load_calls st2 = (if s_partition_list st = [] then Suc (load_calls st) else load_calls st) \<and>
     (s_partition_list st \<noteq> [] \<longrightarrow> s_partition_list st2 = s_partition_list st)"
proof -
  obtain it st1 where f: "esp_partition_find pf ty lbl st = Inr (it, st1)"
    and lc: "load_calls st1 = (if s_partition_list st = [] then Suc (load_calls st) else load_calls st)"
    and l: "s_partition_list st \<noteq> [] \<longrightarrow> s_partition_list st1 = s_partition_list st"
    and c: "case it of
        None \<Rightarrow> find (loop_accepts (get_major_type ty) (get_minor_type ty) lbl)
                  (s_partition_list st1) = None
      | Some a \<Rightarrow> \<exists>i. iterators st1 a = Some i \<and> info i \<noteq> None \<and>
          info i = find (loop_accepts (get_major_type ty) (get_minor_type ty) lbl)
                     (s_partition_list st1)"
    using esp_partition_find_post [of pf ty lbl st] by blast
  show ?thesis
  proof (cases it)
    case None
    with f lc l show ?thesis by (simp add: esp_partition_find_first_def)
  next
    case (Some a)
    with c obtain i where i: "iterators st1 a = Some i" by auto
    with f Some lc l show ?thesis
      by (simp add: esp_partition_find_first_def esp_partition_get_def
            esp_partition_iterator_release_def)
  qed
qed

lemma find_first_slot_invalid:
  assumes "spi_flash_mmap pf = ESP_OK"
    and "s_partition_list st = []"
    and "pi_magic (slots pf 0) \<noteq> ESP_PARTITION_MAGIC pf"
  shows "\<exists>st'. esp_partition_find pf type label st = Inr (None, st') \<and>
    s_partition_list st' = [] \<and> load_calls st' = Suc (load_calls st)"
proof -
  define st1 where "st1 = snd (load_partitions pf st)"
  define st2 where "st2 = st1\<lparr>iterators := (iterators st1)(brk st1 \<mapsto>
      \<lparr>it_type = type, it_label = label, next_item = s_partition_list st1, info = None\<rparr>),
      brk := Suc (brk st1)\<rparr>"
  have it: "iterators st2 (brk st1) =
      Some \<lparr>it_type = type, it_label = label, next_item = s_partition_list st1, info = None\<rparr>"
    by (simp add: st2_def)
  have e: "s_partition_list st1 = []" and lc: "load_calls st1 = Suc (load_calls st)"
    using assms by (simp_all add: st1_def load_partitions_def Let_def load_loop_first_invalid)
  have "esp_partition_find pf type label st = esp_partition_next (Some (brk st1)) st2"
    using assms by (simp add: esp_partition_find_eq st1_def st2_def Let_def)
  also have "\<dots> = Inr (None, st2)"
    using e by (simp add: esp_partition_next_eq [OF it])
  finally have "esp_partition_find pf type label st = Inr (None, st2)" .
  moreover have "s_partition_list st2 = []" "load_calls st2 = Suc (load_calls st)"
    using e lc by (simp_all add: st2_def)
  ultimately show ?thesis by simp
qed

text \<open>
  C4, as amended. Once the table is non-empty, as it is after a load that produced at
  least one record, no sequence of \<^verbatim>\<open>esp_partition_find\<close> and
  \<^verbatim>\<open>esp_partition_find_first\<close> calls runs the loader again, whatever the flash
  would answer, and none of them changes the table or faults.
\<close>

theorem loader_not_rerun_once_nonempty:
  assumes "s_partition_list st \<noteq> []"
  shows "\<exists>st'. run_queries qs st = Inr st' \<and> load_calls st' = load_calls st \<and>
    s_partition_list st' = s_partition_list st"
  using assms
proof (induction qs arbitrary: st)
  case Nil
  show ?case by simp
next
  case (Cons q qs)
  show ?case
  proof (cases q)
    case (Find pf ty lbl)
    obtain it st1 where f: "esp_partition_find pf ty lbl st = Inr (it, st1)"
      and lc: "load_calls st1 = load_calls st"
      and l: "s_partition_list st1 = s_partition_list st"
      using esp_partition_find_post [of pf ty lbl st] Cons.prems by auto
    from Cons.IH [of st1] l Cons.prems
    obtain st' where "run_queries qs st1 = Inr st'" "load_calls st' = load_calls st1"
      "s_partition_list st' = s_partition_list st1" by auto
    with f lc l Find show ?thesis by simp
  next
    case (FindFirst pf ty lbl)
    obtain res st1 where f: "esp_partition_find_first pf ty lbl st = Inr (res, st1)"
      and lc: "load_calls st1 = load_calls st"
      and l: "s_partition_list st1 = s_partition_list st"
      using esp_partition_find_first_post [of pf ty lbl st] Cons.prems by auto
    from Cons.IH [of st1] l Cons.prems
    obtain st' where "run_queries qs st1 = Inr st'" "load_calls st' = load_calls st1"
      "s_partition_list st' = s_partition_list st1" by auto
    with f lc l FindFirst show ?thesis by simp
  qed
qed

theorem loader_not_rerun_once_nonempty_witness:
  "\<exists>st'. run_queries [Find (flash_of []) (pack_type 1 0xff) None,
                       FindFirst flash_failing (pack_type 0 0) None] state_loaded = Inr st' \<and>
     load_calls st' = 1 \<and>
     s_partition_list st' = [load_item (descriptor 1 2 label_nvs)]"
proof -
  have ne: "s_partition_list state_loaded \<noteq> []" by (simp add: state_loaded_def)
  have h: "load_calls state_loaded = 1"
    "s_partition_list state_loaded = [load_item (descriptor 1 2 label_nvs)]"
    by (simp_all add: state_loaded_def)
  show ?thesis
    using loader_not_rerun_once_nonempty [OF ne,
        of "[Find (flash_of []) (pack_type 1 0xff) None,
             FindFirst flash_failing (pack_type 0 0) None]"]
    by (simp only: h)
qed

text \<open>
  C4 as the spec states it fails: on a flash whose first slot is erased the load succeeds
  with no record, the table stays empty, and the next query runs the loader again. Two
  queries are two executions of the loader.
\<close>

theorem loader_reruns_on_empty_table_counterexample:
  "fst (load_partitions (flash_of []) initial_state) = ESP_OK \<and>
   s_partition_list (snd (load_partitions (flash_of []) initial_state)) = [] \<and>
   (\<exists>st'. run_queries [Find (flash_of []) (pack_type 1 0xff) None,
                        Find (flash_of []) (pack_type 1 0xff) None] initial_state = Inr st' \<and>
      load_calls st' = 2)"
proof -
  have a: "spi_flash_mmap (flash_of []) = ESP_OK" by (simp add: flash_of_consts)
  have c: "pi_magic (slots (flash_of []) 0) \<noteq> ESP_PARTITION_MAGIC (flash_of [])"
    by (simp add: flash_of_def blank_def)
  have b: "s_partition_list initial_state = []" "load_calls initial_state = 0"
    by (simp_all add: initial_state_def)
  obtain st1 where f1: "esp_partition_find (flash_of []) (pack_type 1 0xff) None initial_state = Inr (None, st1)"
    and e1: "s_partition_list st1 = []" and l1: "load_calls st1 = 1"
    using find_first_slot_invalid [OF a b(1) c, of "pack_type 1 0xff" None] b(2) by auto
  obtain st2 where f2: "esp_partition_find (flash_of []) (pack_type 1 0xff) None st1 = Inr (None, st2)"
    and l2: "load_calls st2 = 2"
    using find_first_slot_invalid [OF a e1 c, of "pack_type 1 0xff" None] l1 by auto
  have "run_queries [Find (flash_of []) (pack_type 1 0xff) None,
                     Find (flash_of []) (pack_type 1 0xff) None] initial_state = Inr st2"
    using f1 f2 by simp
  moreover have "fst (load_partitions (flash_of []) initial_state) = ESP_OK \<and>
      s_partition_list (snd (load_partitions (flash_of []) initial_state)) = []"
    using a b(1) c by (simp add: load_partitions_def Let_def load_loop_first_invalid)
  ultimately show ?thesis using l2 by simp
qed

subsection \<open>Release\<close>

lemma esp_partition_next_Some:
  "esp_partition_next (Some a) st =
     (case iterators st a of
        None \<Rightarrow> Inl InvalidPointer
      | Some i \<Rightarrow>
          (case next_loop (it_type i) (it_label i) (next_item i) of
             [] \<Rightarrow> if next_item i = [] then Inr (None, st)
                   else Inr (None, st\<lparr>iterators := (iterators st)(a := None)\<rparr>)
           | p # rest \<Rightarrow>
               Inr (Some a, st\<lparr>iterators := (iterators st)(a \<mapsto> i\<lparr>info := Some p, next_item := rest\<rparr>)\<rparr>)))"
proof (cases "iterators st a")
  case None
  then show ?thesis by (simp add: esp_partition_next_def)
next
  case (Some i)
  then show ?thesis by (simp add: esp_partition_next_eq [OF Some])
qed

lemma sel_load_item:
  "p_type (load_item d) = pack_type (pi_type d) (pi_subtype d)"
  "p_label (load_item d) = strncpy (pi_label d) 16 @ [0]"
  by (simp_all add: load_item_def)

lemma sel_descriptor:
  "pi_magic (descriptor t s l) = 0x50AA"
  "pi_type (descriptor t s l) = t"
  "pi_subtype (descriptor t s l) = s"
  "pi_label (descriptor t s l) = l"
  by (simp_all add: descriptor_def)

lemma slots_flash_of_nth:
  "slots (flash_of ds) i = (if i < length ds then ds ! i else blank)"
  by (simp add: flash_of_def)

lemma find_initial_flash_of:
  assumes "length ds \<le> 128"
  shows "esp_partition_find (flash_of ds) ty lbl initial_state =
    esp_partition_next (Some 0)
      \<lparr>s_partition_list = rev (map load_item (takeWhile (\<lambda>d. pi_magic d = 0x50AA) ds)),
       iterators = (\<lambda>a. None)(0 \<mapsto>
         \<lparr>it_type = ty, it_label = lbl,
          next_item = rev (map load_item (takeWhile (\<lambda>d. pi_magic d = 0x50AA) ds)),
          info = None\<rparr>),
       brk = 1, load_calls = 1\<rparr>"
  by (simp add: esp_partition_find_eq flash_of_consts load_partitions_flash_of [OF assms]
        initial_state_def Let_def)

lemma state_exhausted_eq:
  "state_positioned\<lparr>iterators := (iterators state_positioned)(0 := None)\<rparr> = state_exhausted"
  by (simp add: state_exhausted_def state_positioned_def)

lemma next_state_positioned:
  "esp_partition_next (Some 0) state_positioned = Inr (None, state_exhausted)"
proof -
  have it: "iterators state_positioned 0 = Some data_cursor"
    by (simp add: state_positioned_def)
  have "next_loop (it_type data_cursor) (it_label data_cursor) (next_item data_cursor) = []"
    by (simp add: data_cursor_def sel_load_item sel_descriptor get_major_type_pack)
  moreover have "next_item data_cursor \<noteq> []" by (simp add: data_cursor_def)
  ultimately show ?thesis
    by (simp add: esp_partition_next_eq [OF it] state_exhausted_eq)
qed

text \<open>
  C9, as amended. Releasing \<^verbatim>\<open>NULL\<close> is a no-op: it does not fault and returns the
  state as it was. \<^verbatim>\<open>NULL\<close> is what \<^verbatim>\<open>esp_partition_next\<close> returns for an
  exhausted iterator; when it returns it at the end of a scan it has released the
  iterator itself, the table is untouched, and releasing the \<^verbatim>\<open>NULL\<close> it returned
  is again a no-op.
\<close>

theorem release_null_is_noop:
  "esp_partition_iterator_release None st = Inr st \<and>
   (iterators st a = Some i \<and> next_item i \<noteq> [] \<and>
    esp_partition_next (Some a) st = Inr (None, st') \<longrightarrow>
      iterators st' a = None \<and> esp_partition_iterator_release None st' = Inr st' \<and>
      s_partition_list st' = s_partition_list st)"
proof -
  have a: "esp_partition_iterator_release None s = Inr s" for s
    by (simp add: esp_partition_iterator_release_def)
  have b: "iterators st' a = None \<and> s_partition_list st' = s_partition_list st"
    if "iterators st a = Some i" "next_item i \<noteq> []" "esp_partition_next (Some a) st = Inr (None, st')"
    using that by (auto simp: esp_partition_next_eq [OF that(1)] split: list.splits)
  show ?thesis using a b by blast
qed

theorem release_null_is_noop_witness:
  "esp_partition_iterator_release None state_positioned = Inr state_positioned \<and>
   iterators state_exhausted 0 = None \<and>
   esp_partition_iterator_release None state_exhausted = Inr state_exhausted \<and>
   s_partition_list state_exhausted = s_partition_list state_positioned"
proof -
  have a: "iterators state_positioned 0 = Some data_cursor"
    by (simp add: state_positioned_def)
  have b: "next_item data_cursor \<noteq> []" by (simp add: data_cursor_def)
  show ?thesis
    using release_null_is_noop [of state_positioned 0 data_cursor state_exhausted]
      a b next_state_positioned
    by simp
qed

text \<open>
  C9 as the spec states it fails for an exhausted iterator: \<^verbatim>\<open>esp_partition_find\<close>
  returns the iterator at address 0, \<^verbatim>\<open>esp_partition_next\<close> runs it to the end of
  the list, frees it and returns \<^verbatim>\<open>NULL\<close>; releasing the exhausted iterator then
  frees it a second time.
\<close>

theorem release_exhausted_counterexample:
  "esp_partition_find table_mixed (pack_type 1 0xff) None initial_state =
     Inr (Some 0, state_positioned) \<and>
   esp_partition_next (Some 0) state_positioned = Inr (None, state_exhausted) \<and>
   esp_partition_iterator_release (Some 0) state_exhausted = Inl InvalidFree"
proof -
  have "esp_partition_find table_mixed (pack_type 1 0xff) None initial_state =
      Inr (Some 0, state_positioned)"
    by (simp add: table_mixed_def find_initial_flash_of sel_descriptor esp_partition_next_Some
          sel_load_item get_major_type_pack get_minor_type_pack state_positioned_def
          data_cursor_def)
  moreover have "esp_partition_iterator_release (Some 0) state_exhausted = Inl InvalidFree"
    by (simp add: esp_partition_iterator_release_def state_exhausted_def)
  ultimately show ?thesis using next_state_positioned by simp
qed

subsection \<open>Enumerating the table\<close>

lemma nexts_all:
  assumes "iterators st a = Some i"
    and "\<forall>p\<in>set (next_item i).
           loop_accepts (get_major_type (it_type i)) (get_minor_type (it_type i)) (it_label i) p"
    and "length (next_item i) < k"
  shows "\<exists>st'. nexts k (Some a) st = Inr (map Some (next_item i) @ [None], st')"
  using assms
proof (induction k arbitrary: st i)
  case 0
  then show ?case by simp
next
  case (Suc k)
  show ?case
  proof (cases "next_item i")
    case Nil
    then show ?thesis using Suc.prems(1)
      by (simp add: esp_partition_next_eq [OF Suc.prems(1)])
  next
    case (Cons p rest)
    have acc: "loop_accepts (get_major_type (it_type i)) (get_minor_type (it_type i)) (it_label i) p"
      using Suc.prems(2) Cons by simp
    then have nl: "next_loop (it_type i) (it_label i) (next_item i) = p # rest"
      using next_loop_head_iff [of "it_type i" "it_label i" p rest] Cons by simp
    define i1 where "i1 = i\<lparr>info := Some p, next_item := rest\<rparr>"
    define st1 where "st1 = st\<lparr>iterators := (iterators st)(a \<mapsto> i1)\<rparr>"
    have nx: "esp_partition_next (Some a) st = Inr (Some a, st1)"
      using nl by (simp add: esp_partition_next_eq [OF Suc.prems(1)] st1_def i1_def)
    have it1: "iterators st1 a = Some i1" by (simp add: st1_def)
    have g: "esp_partition_get (Some a) st1 = Inr (Some p)"
      by (simp add: esp_partition_get_def it1 i1_def)
    have "\<forall>q\<in>set (next_item i1).
        loop_accepts (get_major_type (it_type i1)) (get_minor_type (it_type i1)) (it_label i1) q"
      using Suc.prems(2) Cons by (simp add: i1_def)
    moreover have "length (next_item i1) < k"
      using Suc.prems(3) Cons by (simp add: i1_def)
    ultimately obtain st' where
      "nexts k (Some a) st1 = Inr (map Some (next_item i1) @ [None], st')"
      using Suc.IH [OF it1] by blast
    then show ?thesis using nx g Cons by (simp add: i1_def)
  qed
qed

lemma ucast_ff: "(ucast (0xff :: 8 word) :: 32 word) = 0xff"
  by simp

lemma find_then_next_exact:
  assumes ok: "spi_flash_mmap pf = ESP_OK"
    and empty: "s_partition_list st = []"
    and n: "n \<le> SPI_FLASH_SEC_SIZE pf div sizeof_esp_partition_info_t"
    and valid: "\<forall>i<n. pi_magic (slots pf i) = ESP_PARTITION_MAGIC pf \<and> pi_type (slots pf i) = X"
    and stop: "pi_magic (slots pf n) \<noteq> ESP_PARTITION_MAGIC pf"
  shows "\<exists>st'.
    find_then_next n pf (pack_type X 0xff) None st =
      Inr (map Some (rev (map (\<lambda>i. load_item (slots pf i)) [0..<n])) @ [None], st')"
proof -
  let ?ty = "pack_type X 0xff"
  define L where "L = rev (map (\<lambda>i. load_item (slots pf i)) [0..<n])"
  define st1 where "st1 = snd (load_partitions pf st)"
  define i0 where "i0 = \<lparr>it_type = ?ty, it_label = None, next_item = L, info = None\<rparr>"
  define st2 where "st2 = st1\<lparr>iterators := (iterators st1)(brk st1 \<mapsto> i0), brk := Suc (brk st1)\<rparr>"
  have "load_loop pf 0 (SPI_FLASH_SEC_SIZE pf div sizeof_esp_partition_info_t) None [] = L"
    unfolding L_def using load_loop_prefix [of n pf 0 _ "[]"] valid n stop by simp
  then have l1: "s_partition_list st1 = L"
    using ok empty by (simp add: st1_def load_partitions_def Let_def)
  have f: "esp_partition_find pf ?ty None st = esp_partition_next (Some (brk st1)) st2"
    using ok empty l1 by (simp add: esp_partition_find_eq st1_def st2_def i0_def Let_def)
  have it: "iterators st2 (brk st1) = Some i0" by (simp add: st2_def)
  have acc: "\<forall>p\<in>set L. loop_accepts (get_major_type ?ty) (get_minor_type ?ty) None p"
    using valid
    by (auto simp: L_def loop_accepts_def load_item_def get_major_type_pack get_minor_type_pack)
  have len: "length L = n" by (simp add: L_def)
  show ?thesis
  proof (cases L)
    case Nil
    then have "esp_partition_find pf ?ty None st = Inr (None, st2)"
      using f by (simp add: esp_partition_next_eq [OF it] i0_def)
    then have "find_then_next n pf ?ty None st = Inr (map Some L @ [None], st2)"
      using Nil by (simp add: find_then_next_def)
    then show ?thesis unfolding L_def by blast
  next
    case (Cons p rest)
    define i1 where "i1 = i0\<lparr>info := Some p, next_item := rest\<rparr>"
    define st3 where "st3 = st2\<lparr>iterators := (iterators st2)(brk st1 \<mapsto> i1)\<rparr>"
    have "loop_accepts (get_major_type ?ty) (get_minor_type ?ty) None p"
      using acc Cons by simp
    then have "next_loop ?ty None L = p # rest"
      using next_loop_head_iff [of ?ty None p rest] Cons by simp
    then have fr: "esp_partition_find pf ?ty None st = Inr (Some (brk st1), st3)"
      using f by (simp add: esp_partition_next_eq [OF it] i0_def st3_def i1_def)
    have it1: "iterators st3 (brk st1) = Some i1" by (simp add: st3_def)
    have g: "esp_partition_get (Some (brk st1)) st3 = Inr (Some p)"
      by (simp add: esp_partition_get_def it1 i1_def)
    have "\<forall>q\<in>set (next_item i1).
        loop_accepts (get_major_type (it_type i1)) (get_minor_type (it_type i1)) (it_label i1) q"
      using acc Cons by (simp add: i1_def i0_def)
    moreover have "length (next_item i1) < n"
      using len Cons by (auto simp: i1_def)
    ultimately obtain st' where
      "nexts n (Some (brk st1)) st3 = Inr (map Some (next_item i1) @ [None], st')"
      using nexts_all [OF it1] by blast
    then have "find_then_next n pf ?ty None st = Inr (map Some L @ [None], st')"
      using fr g Cons by (simp add: find_then_next_def i1_def)
    then show ?thesis unfolding L_def by blast
  qed
qed

lemma nexts_sound:
  assumes "iterators st a = Some i"
    and "nexts k (Some a) st = Inr (rs, st')"
  shows "\<forall>r. Some r \<in> set rs \<longrightarrow>
    loop_accepts (get_major_type (it_type i)) (get_minor_type (it_type i)) (it_label i) r"
  using assms
proof (induction k arbitrary: st i rs)
  case 0
  then show ?case by simp
next
  case (Suc k)
  let ?P = "loop_accepts (get_major_type (it_type i)) (get_minor_type (it_type i)) (it_label i)"
  show ?case
  proof (cases "next_loop (it_type i) (it_label i) (next_item i)")
    case Nil
    then have "rs = [None]" using Suc.prems
      by (auto simp: esp_partition_next_eq [OF Suc.prems(1)] split: if_splits)
    then show ?thesis by simp
  next
    case (Cons p rest)
    define i1 where "i1 = i\<lparr>info := Some p, next_item := rest\<rparr>"
    define st1 where "st1 = st\<lparr>iterators := (iterators st)(a \<mapsto> i1)\<rparr>"
    have nx: "esp_partition_next (Some a) st = Inr (Some a, st1)"
      using Cons by (simp add: esp_partition_next_eq [OF Suc.prems(1)] st1_def i1_def)
    have it1: "iterators st1 a = Some i1" by (simp add: st1_def)
    have g: "esp_partition_get (Some a) st1 = Inr (Some p)"
      by (simp add: esp_partition_get_def it1 i1_def)
    have "dropWhile (\<lambda>p. \<not> ?P p) (next_item i) = p # rest"
      using Cons by (simp add: next_loop_dropWhile)
    then have "?P (hd (dropWhile (\<lambda>p. \<not> ?P p) (next_item i)))"
      using hd_dropWhile [of "\<lambda>p. \<not> ?P p" "next_item i"] by auto
    then have acc: "?P p" using \<open>dropWhile (\<lambda>p. \<not> ?P p) (next_item i) = p # rest\<close> by simp
    obtain rs1 where r1: "nexts k (Some a) st1 = Inr (rs1, st')" and rs: "rs = Some p # rs1"
      using Suc.prems(2) nx g by (auto split: sum.splits)
    have "\<forall>r. Some r \<in> set rs1 \<longrightarrow>
        loop_accepts (get_major_type (it_type i1)) (get_minor_type (it_type i1)) (it_label i1) r"
      by (rule Suc.IH [OF it1 r1])
    then show ?thesis using acc rs by (auto simp: i1_def)
  qed
qed

lemma esp_partition_find_iterator:
  assumes "esp_partition_find pf ty lbl st = Inr (Some a, st1)"
  shows "\<exists>i. iterators st1 a = Some i \<and> it_type i = ty \<and> it_label i = lbl"
proof (cases "s_partition_list st = [] \<and> spi_flash_mmap pf \<noteq> ESP_OK")
  case True
  then show ?thesis using assms by (simp add: esp_partition_find_eq)
next
  case False
  define s1 where "s1 = (if s_partition_list st = [] then snd (load_partitions pf st) else st)"
  define i0 where "i0 = \<lparr>it_type = ty, it_label = lbl, next_item = s_partition_list s1, info = None\<rparr>"
  define s2 where "s2 = s1\<lparr>iterators := (iterators s1)(brk s1 \<mapsto> i0), brk := Suc (brk s1)\<rparr>"
  have it: "iterators s2 (brk s1) = Some i0" by (simp add: s2_def)
  have "esp_partition_find pf ty lbl st = esp_partition_next (Some (brk s1)) s2"
    using False by (auto simp add: esp_partition_find_eq s1_def s2_def i0_def Let_def)
  with assms have "esp_partition_next (Some (brk s1)) s2 = Inr (Some a, st1)" by simp
  then show ?thesis
    by (auto simp: esp_partition_next_eq [OF it] i0_def split: list.splits if_splits)
qed

lemma yields_sound:
  assumes "yields k pf ty lbl st = Inr rs"
  shows "\<forall>r. Some r \<in> set rs \<longrightarrow> loop_accepts (get_major_type ty) (get_minor_type ty) lbl r"
proof -
  obtain it st1 where f: "esp_partition_find pf ty lbl st = Inr (it, st1)"
    and c: "case it of
        None \<Rightarrow> find (loop_accepts (get_major_type ty) (get_minor_type ty) lbl)
                  (s_partition_list st1) = None
      | Some a \<Rightarrow> \<exists>i. iterators st1 a = Some i \<and> info i \<noteq> None \<and>
          info i = find (loop_accepts (get_major_type ty) (get_minor_type ty) lbl)
                     (s_partition_list st1)"
    using esp_partition_find_post [of pf ty lbl st] by blast
  show ?thesis
  proof (cases it)
    case None
    then have "rs = [None]" using assms f by (simp add: yields_def find_then_next_def)
    then show ?thesis by simp
  next
    case (Some a)
    then obtain i where i: "iterators st1 a = Some i"
      and r: "info i = find (loop_accepts (get_major_type ty) (get_minor_type ty) lbl)
                 (s_partition_list st1)"
      using c by auto
    have ty: "it_type i = ty \<and> it_label i = lbl"
      using esp_partition_find_iterator [of pf ty lbl st a st1] f Some i by auto
    obtain rs1 st2 where n: "nexts k (Some a) st1 = Inr (rs1, st2)" and rs: "rs = info i # rs1"
      using assms f Some i
      by (auto simp: yields_def find_then_next_def esp_partition_get_def split: sum.splits)
    have "\<forall>r. Some r \<in> set rs1 \<longrightarrow>
        loop_accepts (get_major_type (it_type i)) (get_minor_type (it_type i)) (it_label i) r"
      by (rule nexts_sound [OF i n])
    moreover have "\<forall>r. info i = Some r \<longrightarrow> loop_accepts (get_major_type ty) (get_minor_type ty) lbl r"
      using r by (auto simp: find_Some_iff)
    ultimately show ?thesis using rs ty by auto
  qed
qed

lemma table_data_hyps:
  "spi_flash_mmap table_data = ESP_OK"
  "s_partition_list initial_state = []"
  "2 \<le> SPI_FLASH_SEC_SIZE table_data div sizeof_esp_partition_info_t"
  "\<forall>i<2. pi_magic (slots table_data i) = ESP_PARTITION_MAGIC table_data \<and>
      pi_type (slots table_data i) = 1"
  "pi_magic (slots table_data 2) \<noteq> ESP_PARTITION_MAGIC table_data"
  by (auto simp: table_data_def flash_of_consts initial_state_def slots_flash_of_nth
        sel_descriptor blank_def less_2_cases_iff)

lemma table_data_records:
  "map (\<lambda>i. load_item (slots table_data i)) [0..<2] =
     [load_item (descriptor 1 2 label_nvs), load_item (descriptor 1 1 label_phy)]"
  by (simp add: table_data_def slots_flash_of_nth upt_rec [of 0] upt_rec [of 1] upt_rec [of 2]
        numeral_2_eq_2)

text \<open>
  C1, as amended. For a flash whose mapping succeeds and whose table has \<open>n\<close> valid
  descriptors, all of the major type \<open>X\<close> and no more than the loader scans, followed
  by a slot with an invalid magic: in a process that has not loaded the table,
  \<^verbatim>\<open>esp_partition_find\<close> for \<open>X\<close> with the wildcard minor type \<open>0xFF\<close> and no
  label, followed by \<open>n\<close> calls of \<^verbatim>\<open>esp_partition_next\<close>, yields \<open>n\<close> records and
  then \<^verbatim>\<open>NULL\<close> at call \<open>n + 1\<close>, and the records are exactly the \<open>n\<close> loaded
  ones, each as often as it is in the table. Their order is not part of the statement.
\<close>

theorem find_next_yields_all:
  assumes "spi_flash_mmap pf = ESP_OK"
    and "s_partition_list st = []"
    and "n \<le> SPI_FLASH_SEC_SIZE pf div sizeof_esp_partition_info_t"
    and "\<forall>i<n. pi_magic (slots pf i) = ESP_PARTITION_MAGIC pf \<and> pi_type (slots pf i) = X"
    and "pi_magic (slots pf n) \<noteq> ESP_PARTITION_MAGIC pf"
  shows "\<exists>recs st'.
    find_then_next n pf (pack_type X 0xff) None st = Inr (map Some recs @ [None], st') \<and>
    mset recs = mset (map (\<lambda>i. load_item (slots pf i)) [0..<n])"
proof -
  obtain st' where
    "find_then_next n pf (pack_type X 0xff) None st =
      Inr (map Some (rev (map (\<lambda>i. load_item (slots pf i)) [0..<n])) @ [None], st')"
    using find_then_next_exact [OF assms] by blast
  moreover have "mset (rev (map (\<lambda>i. load_item (slots pf i)) [0..<n])) =
      mset (map (\<lambda>i. load_item (slots pf i)) [0..<n])"
    by simp
  ultimately show ?thesis by blast
qed

theorem find_next_yields_all_witness:
  "\<exists>recs st'.
     find_then_next 2 table_data (pack_type 1 0xff) None initial_state =
       Inr (map Some recs @ [None], st') \<and>
     mset recs = {#load_item (descriptor 1 2 label_nvs), load_item (descriptor 1 1 label_phy)#}"
  using find_next_yields_all [OF table_data_hyps] by (simp add: table_data_records)

text \<open>
  C1 as the spec states it fails. No type matches every record: for a table of an
  application and a data partition no requested type makes the calls yield both records.
  And for a table of two data partitions the calls yield the second descriptor's record
  first.
\<close>

theorem find_any_type_counterexample:
  "(\<forall>type. yields 2 table_mixed type None initial_state \<noteq>
      Inr [Some (load_item (descriptor 0 0 label_app)),
           Some (load_item (descriptor 1 2 label_nvs)), None]) \<and>
   (\<exists>st'. find_then_next 2 table_data (pack_type 1 0xff) None initial_state =
      Inr ([Some (load_item (descriptor 1 1 label_phy)),
            Some (load_item (descriptor 1 2 label_nvs)), None], st'))"
proof (intro conjI allI notI)
  fix type
  assume "yields 2 table_mixed type None initial_state =
      Inr [Some (load_item (descriptor 0 0 label_app)),
           Some (load_item (descriptor 1 2 label_nvs)), None]"
  from yields_sound [OF this]
  have "get_major_type (pack_type 0 0) = get_major_type type"
    and "get_major_type (pack_type 1 2) = get_major_type type"
    by (simp_all add: loop_accepts_def sel_load_item sel_descriptor)
  then show False by (simp add: get_major_type_pack)
next
  show "\<exists>st'. find_then_next 2 table_data (pack_type 1 0xff) None initial_state =
      Inr ([Some (load_item (descriptor 1 1 label_phy)),
            Some (load_item (descriptor 1 2 label_nvs)), None], st')"
    using find_then_next_exact [OF table_data_hyps] by (simp add: table_data_records)
qed

subsection \<open>The record find first returns\<close>

lemma majorType_load_item: "majorType (load_item d) = pi_type d"
  by (simp add: majorType_def load_item_def ucast_drop_pack)

text \<open>
  C8. The claim does not hold of the code. The table \<open>table_data\<close> has the data
  partitions \<open>nvs\<close> and \<open>phy\<close>, in this order on flash, and both satisfy the matcher of
  the spec for the major type 1 with the wildcard minor type. The first record of the
  table that satisfies the filter is \<open>nvs\<close>; \<^verbatim>\<open>esp_partition_find_first\<close> returns
  \<open>phy\<close>, because the loader has put the records into the list in reverse on-flash
  order.
\<close>

theorem find_first_last_on_flash:
  "slots table_data 0 = descriptor 1 2 label_nvs \<and>
   slots table_data 1 = descriptor 1 1 label_phy \<and>
   spec_matcher 1 0xff None (load_item (descriptor 1 2 label_nvs)) \<and>
   load_item (descriptor 1 2 label_nvs) \<noteq> load_item (descriptor 1 1 label_phy) \<and>
   (\<exists>st'. esp_partition_find_first table_data (pack_type 1 0xff) None initial_state =
      Inr (Some (load_item (descriptor 1 1 label_phy)), st'))"
proof -
  have a: "slots table_data 0 = descriptor 1 2 label_nvs"
    "slots table_data 1 = descriptor 1 1 label_phy"
    by (simp_all add: table_data_def slots_flash_of_nth)
  have b: "spec_matcher 1 0xff None (load_item (descriptor 1 2 label_nvs))"
    by (simp add: spec_matcher_def majorType_load_item sel_descriptor)
  have c: "load_item (descriptor 1 2 label_nvs) \<noteq> load_item (descriptor 1 1 label_phy)"
    by (simp add: load_item_def descriptor_def label_nvs_def label_phy_def strncpy_def c_str_def)
  have "esp_partition_find table_data (pack_type 1 0xff) None initial_state =
      Inr (Some 0,
        \<lparr>s_partition_list =
           [load_item (descriptor 1 1 label_phy), load_item (descriptor 1 2 label_nvs)],
         iterators = (\<lambda>a. None)(0 \<mapsto>
           \<lparr>it_type = pack_type 1 0xff, it_label = None,
            next_item = [load_item (descriptor 1 2 label_nvs)],
            info = Some (load_item (descriptor 1 1 label_phy))\<rparr>),
         brk = 1, load_calls = 1\<rparr>)"
    by (simp add: table_data_def find_initial_flash_of sel_descriptor esp_partition_next_Some
          sel_load_item get_major_type_pack get_minor_type_pack)
  then have "\<exists>st'. esp_partition_find_first table_data (pack_type 1 0xff) None initial_state =
      Inr (Some (load_item (descriptor 1 1 label_phy)), st')"
    by (simp add: esp_partition_find_first_def esp_partition_get_def
          esp_partition_iterator_release_def)
  with a b c show ?thesis by simp
qed

end
